theory Spec2Isabelle
  imports Complex_Main "HOL-Library.Sublist"
begin

section \<open>Python values used by \<open>python-backend/server.py\<close>\<close>

text \<open>
  A Python \<open>str\<close> is a sequence of Unicode code points, so it is modelled as a list of
  natural numbers; \<open>py\<close> turns an ASCII literal into that form.  Floats are only passed
  through by the server (never computed with), so they are modelled as reals.
\<close>

type_synonym pystr = "nat list"

definition py :: "string \<Rightarrow> pystr" where
  "py s = map of_char s"

text \<open>An exception value with its message (\<open>str(e)\<close>); the server only tells
  \<open>TypeError\<close> apart from the rest.\<close>

datatype exc = TypeError pystr | IndexError pystr | ValueError pystr | OtherError pystr

fun exc_str :: "exc \<Rightarrow> pystr" where
  "exc_str (TypeError m) = m"
| "exc_str (IndexError m) = m"
| "exc_str (ValueError m) = m"
| "exc_str (OtherError m) = m"

text \<open>\<open>fastapi.HTTPException(status_code, detail)\<close>.\<close>

datatype HTTPException = HTTPException (status_code: nat) (detail: pystr)

subsection \<open>String operations\<close>

text \<open>\<open>str.strip()\<close> removes the code points for which \<open>str.isspace\<close> holds.\<close>

definition isspace :: "nat \<Rightarrow> bool" where
  "isspace c \<longleftrightarrow>
     (9 \<le> c \<and> c \<le> 13) \<or> (28 \<le> c \<and> c \<le> 32) \<or> c = 133 \<or> c = 160 \<or> c = 5760 \<or>
     (8192 \<le> c \<and> c \<le> 8202) \<or> c = 8232 \<or> c = 8233 \<or> c = 8239 \<or> c = 8287 \<or> c = 12288"

definition lstrip :: "pystr \<Rightarrow> pystr" where
  "lstrip s = dropWhile isspace s"

definition rstrip :: "pystr \<Rightarrow> pystr" where
  "rstrip s = rev (dropWhile isspace (rev s))"

definition strip :: "pystr \<Rightarrow> pystr" where
  "strip s = rstrip (lstrip s)"

text \<open>The position of the leftmost occurrence of \<open>sub\<close> in \<open>s\<close>, if there is one.\<close>

fun str_index :: "pystr \<Rightarrow> pystr \<Rightarrow> nat option" where
  "str_index sub [] = (if sub = [] then Some 0 else None)"
| "str_index sub (c # cs) =
     (if prefix sub (c # cs) then Some 0 else map_option Suc (str_index sub cs))"

text \<open>\<open>sub in s\<close>.\<close>

definition str_contains :: "pystr \<Rightarrow> pystr \<Rightarrow> bool" where
  "str_contains sub s = (str_index sub s \<noteq> None)"

text \<open>\<open>s.find(sub)\<close> and \<open>s.find(sub, start)\<close> for \<open>start \<ge> 0\<close>: the lowest index, or \<open>-1\<close>.\<close>

definition str_find :: "pystr \<Rightarrow> pystr \<Rightarrow> int" where
  "str_find sub s = (case str_index sub s of None \<Rightarrow> - 1 | Some i \<Rightarrow> int i)"

definition str_find_from :: "pystr \<Rightarrow> pystr \<Rightarrow> nat \<Rightarrow> int" where
  "str_find_from sub s start =
     (if length s < start then - 1
      else case str_index sub (drop start s) of None \<Rightarrow> - 1 | Some i \<Rightarrow> int (start + i))"

text \<open>\<open>s.count(sub)\<close>: the number of non-overlapping occurrences, scanning from the left.\<close>

function str_count :: "pystr \<Rightarrow> pystr \<Rightarrow> nat" where
  "str_count sub [] = (if sub = [] then 1 else 0)"
| "str_count sub (c # cs) =
     (if sub = [] then Suc (Suc (length cs))
      else if prefix sub (c # cs) then Suc (str_count sub (drop (length sub) (c # cs)))
      else str_count sub cs)"
  by pat_completeness auto
termination
  by (relation "measure (\<lambda>(sub, s). length s)") auto

text \<open>\<open>s.split(sep)\<close>: Python raises \<open>ValueError\<close> for the empty separator; otherwise the
  text is cut at every non-overlapping occurrence of \<open>sep\<close>, left to right.\<close>

function split_at :: "pystr \<Rightarrow> pystr \<Rightarrow> pystr list" where
  "split_at sep s =
     (if sep = [] then [s]
      else case str_index sep s of
             None \<Rightarrow> [s]
           | Some i \<Rightarrow> take i s # split_at sep (drop (i + length sep) s))"
  by pat_completeness auto
termination
proof (relation "measure (\<lambda>(sep, s). length s)")
  show "wf (measure (\<lambda>(sep, s). length s))"
    by simp
next
  fix sep s :: pystr and i :: nat
  assume sep: "sep \<noteq> []" and idx: "str_index sep s = Some i"
  have "s \<noteq> []"
    using sep idx by (cases s) auto
  then show "((sep, drop (i + length sep) s), (sep, s)) \<in> measure (\<lambda>(sep, s). length s)"
    using sep by simp
qed

definition str_split :: "pystr \<Rightarrow> pystr \<Rightarrow> exc + pystr list" where
  "str_split sep s =
     (if sep = [] then Inl (ValueError (py ''empty separator'')) else Inr (split_at sep s))"

text \<open>\<open>xs[0]\<close>.\<close>

definition index0 :: "'a list \<Rightarrow> exc + 'a" where
  "index0 xs = (case xs of [] \<Rightarrow> Inl (IndexError (py ''list index out of range'')) | x # _ \<Rightarrow> Inr x)"

text \<open>\<open>re.sub(open + '.*?' + close, '', s, flags=re.DOTALL)\<close> for literal delimiters: at each
  position, left to right, a match starts if \<open>open\<close> is there and \<open>close\<close> occurs somewhere
  after it; the match ends with the nearest such \<open>close\<close>, and scanning resumes behind it.
  Where nothing matches, the character is kept.  The server's delimiters are the non-empty
  literals \<open><think>\<close> and \<open></think>\<close>; for two empty delimiters, which would match
  the empty text everywhere, the function keeps the character and moves on.\<close>

function re_sub_delimited :: "pystr \<Rightarrow> pystr \<Rightarrow> pystr \<Rightarrow> pystr" where
  "re_sub_delimited opn cls [] = []"
| "re_sub_delimited opn cls (c # cs) =
     (if prefix opn (c # cs) then
        (case str_index cls (drop (length opn) (c # cs)) of
           Some k \<Rightarrow>
             (if opn = [] \<and> cls = [] then c # re_sub_delimited opn cls cs
              else re_sub_delimited opn cls (drop (length opn + k + length cls) (c # cs)))
         | None \<Rightarrow> c # re_sub_delimited opn cls cs)
      else c # re_sub_delimited opn cls cs)"
  by pat_completeness auto
termination
  by (relation "measure (\<lambda>(opn, cls, s). length s)") auto

section \<open>The response cleaning of \<open>generate_text\<close>\<close>

definition think_open :: pystr where
  "think_open = py ''<think>''"

definition think_close :: pystr where
  "think_close = py ''</think>''"

definition output_marker :: pystr where
  "output_marker = py ''Output:''"

definition text_marker :: pystr where
  "text_marker = py ''Text:''"

definition paragraph_break :: pystr where
  "paragraph_break = [10, 10]"

text \<open>Remove \<open><think>...</think>\<close> blocks.\<close>

definition strip_think :: "pystr \<Rightarrow> pystr" where
  "strip_think response = re_sub_delimited think_open think_close response"

text \<open>The \<open>for part in parts[1:]\<close> loop: the first part that is non-empty after \<open>strip()\<close>,
  stripped; \<open>None\<close> when the loop ends without \<open>break\<close>.\<close>

fun first_clean_part :: "pystr list \<Rightarrow> pystr option" where
  "first_clean_part [] = None"
| "first_clean_part (part # parts) =
     (let clean_part = strip part
      in if clean_part \<noteq> [] then Some clean_part else first_clean_part parts)"

text \<open>Keep only the first \<open>Output:\<close> section.\<close>

definition output_stage :: "pystr \<Rightarrow> exc + pystr" where
  "output_stage response =
     (if str_contains output_marker response then
        (case str_split output_marker response of
           Inl e \<Rightarrow> Inl e
         | Inr parts \<Rightarrow>
             (case first_clean_part (tl parts) of
                None \<Rightarrow> Inr response
              | Some clean_part \<Rightarrow>
                  (case str_split paragraph_break clean_part of
                     Inl e \<Rightarrow> Inl e
                   | Inr paragraphs \<Rightarrow> index0 paragraphs)))
      else Inr response)"

text \<open>Cut a response in which \<open>Text:\<close> is repeated.\<close>

definition text_stage :: "pystr \<Rightarrow> pystr" where
  "text_stage response =
     (if 1 < str_count text_marker response then
        (let first_text_idx = str_find text_marker response
         in if 0 < first_text_idx then strip (take (nat first_text_idx) response)
            else if first_text_idx = 0 then
              (let second_text_idx = str_find_from text_marker response 5
               in if 0 < second_text_idx then strip (take (nat second_text_idx) response)
                  else response)
            else response)
      else response)"

text \<open>Lines 209 to 237 of \<open>generate_text\<close>; the tests call this step
  \<open>clean_model_response\<close>.\<close>

definition clean_model_response :: "pystr \<Rightarrow> exc + pystr" where
  "clean_model_response response =
     (if response \<noteq> [] then
        (case output_stage (strip_think response) of
           Inl e \<Rightarrow> Inl e
         | Inr r \<Rightarrow> Inr (strip (text_stage r)))
      else Inr response)"


section \<open>The server: global model state and the four handlers\<close>

text \<open>The three module globals.  The loaded model and its tokenizer are opaque objects of
  the \<open>mlx_lm\<close> library (type parameters \<open>'m\<close> and \<open>'t\<close>); \<open>None\<close> is Python's \<open>None\<close>.\<close>

record ('m, 't) globals =
  model :: "'m option"
  tokenizer :: "'t option"
  current_model_path :: "pystr option"

definition initial_globals :: "('m, 't) globals" where
  "initial_globals = \<lparr>model = None, tokenizer = None, current_model_path = None\<rparr>"

record LoadRequest =
  model_path :: pystr

record GenerateRequest =
  prompt :: pystr
  max_tokens :: int
  temperature :: real

record LoadResponse =
  load_status :: pystr
  load_model_path :: pystr

record GenerateResponse =
  response :: pystr
  tokens_generated :: nat

record StatusResponse =
  status :: pystr
  model_loaded :: bool
  status_model_path :: "pystr option"

subsection \<open>\<open>GET /status\<close>\<close>

definition get_status :: "('m, 't) globals \<Rightarrow> StatusResponse" where
  "get_status g =
     \<lparr>status = py ''running'', model_loaded = (model g \<noteq> None),
      status_model_path = current_model_path g\<rparr>"

subsection \<open>\<open>POST /load\<close>\<close>

text \<open>What the library does during one call of the handler: the import of \<open>mlx_lm\<close> raises,
  or \<open>load(path)\<close> raises, or \<open>load(path)\<close> returns a model and its tokenizer.\<close>

datatype ('m, 't) load_outcome = ImportRaises exc | LoadRaises exc | LoadReturns 'm 't

text \<open>The \<open>if model is not None\<close> block that releases the previous model.\<close>

definition release_previous :: "('m, 't) globals \<Rightarrow> ('m, 't) globals" where
  "release_previous g = (if model g \<noteq> None then g\<lparr>model := None, tokenizer := None\<rparr> else g)"

definition load_failed :: "exc \<Rightarrow> HTTPException" where
  "load_failed e = HTTPException 500 (py ''Failed to load model: '' @ exc_str e)"

definition load_model ::
  "('m, 't) globals \<Rightarrow> LoadRequest \<Rightarrow> ('m, 't) load_outcome
     \<Rightarrow> (HTTPException + LoadResponse) \<times> ('m, 't) globals" where
  "load_model g request outcome =
     (case outcome of
        ImportRaises e \<Rightarrow> (Inl (load_failed e), g)
      | LoadRaises e \<Rightarrow> (Inl (load_failed e), release_previous g)
      | LoadReturns m t \<Rightarrow>
          (Inr \<lparr>load_status = py ''loaded'', load_model_path = model_path request\<rparr>,
           (release_previous g)\<lparr>model := Some m, tokenizer := Some t,
                                 current_model_path := Some (model_path request)\<rparr>))"

subsection \<open>\<open>POST /unload\<close>\<close>

text \<open>Whether \<open>import mlx.core\<close> and \<open>mx.metal.clear_cache()\<close> go through or raise.\<close>

datatype cache_outcome = CacheCleared | CacheRaises exc

text \<open>The handler returns its response, the new globals and the warnings it logged.\<close>

definition unload_model ::
  "('m, 't) globals \<Rightarrow> cache_outcome
     \<Rightarrow> (HTTPException + StatusResponse) \<times> ('m, 't) globals \<times> pystr list" where
  "unload_model g outcome =
     (if model g = None then
        (Inr \<lparr>status = py ''no_model_loaded'', model_loaded = False, status_model_path = None\<rparr>,
         g, [])
      else
        (Inr \<lparr>status = py ''unloaded'', model_loaded = False, status_model_path = None\<rparr>,
         g\<lparr>model := None, tokenizer := None, current_model_path := None\<rparr>,
         (case outcome of
            CacheCleared \<Rightarrow> []
          | CacheRaises e \<Rightarrow> [py ''Failed to clear MLX Metal cache: '' @ exc_str e])))"

subsection \<open>\<open>POST /generate\<close>\<close>

text \<open>The keyword arguments given to \<open>make_sampler\<close> and \<open>make_logits_processors\<close>.\<close>

record sampler_args =
  temp :: real
  top_p :: real
  min_tokens_to_keep :: nat

record logits_args =
  repetition_penalty :: real
  repetition_context_size :: nat

text \<open>The library calls of one \<open>generate_text\<close> run: the tokenizer's chat template (given
  the messages as role and content pairs, and whether \<open>enable_thinking=False\<close> is passed),
  \<open>mlx_lm.generate\<close> and \<open>tokenizer.encode\<close>.  Each returns or raises.\<close>

record ('m, 't) mlx_lm =
  apply_chat_template :: "'t \<Rightarrow> (pystr \<times> pystr) list \<Rightarrow> bool \<Rightarrow> exc + pystr"
  generate :: "'m \<Rightarrow> 't \<Rightarrow> pystr \<Rightarrow> int \<Rightarrow> sampler_args \<Rightarrow> logits_args \<Rightarrow> exc + pystr"
  encode :: "'t \<Rightarrow> pystr \<Rightarrow> exc + nat list"

definition request_sampler :: "GenerateRequest \<Rightarrow> sampler_args" where
  "request_sampler request = \<lparr>temp = temperature request, top_p = 8 / 10, min_tokens_to_keep = 1\<rparr>"

definition fixed_logits :: logits_args where
  "fixed_logits = \<lparr>repetition_penalty = 115 / 100, repetition_context_size = 64\<rparr>"

text \<open>The inner \<open>try\<close>: on \<open>TypeError\<close> the template is applied again without
  \<open>enable_thinking\<close>.\<close>

definition format_prompt :: "('m, 't) mlx_lm \<Rightarrow> 't \<Rightarrow> pystr \<Rightarrow> exc + pystr" where
  "format_prompt lib tok p =
     (let messages = [(py ''user'', p)]
      in case apply_chat_template lib tok messages True of
           Inl (TypeError m) \<Rightarrow> apply_chat_template lib tok messages False
         | r \<Rightarrow> r)"

text \<open>\<open>len(tokenizer.encode(response)) if response else 0\<close>.\<close>

definition count_tokens :: "('m, 't) mlx_lm \<Rightarrow> 't \<Rightarrow> pystr \<Rightarrow> exc + nat" where
  "count_tokens lib tok r =
     (if r \<noteq> [] then (case encode lib tok r of Inl e \<Rightarrow> Inl e | Inr ids \<Rightarrow> Inr (length ids))
      else Inr 0)"

text \<open>The body of the outer \<open>try\<close>.\<close>

definition generate_body ::
  "('m, 't) mlx_lm \<Rightarrow> 'm \<Rightarrow> 't \<Rightarrow> GenerateRequest \<Rightarrow> exc + GenerateResponse" where
  "generate_body lib m tok request =
     (case format_prompt lib tok (prompt request) of
        Inl e \<Rightarrow> Inl e
      | Inr formatted_prompt \<Rightarrow>
          (case generate lib m tok formatted_prompt (max_tokens request)
                  (request_sampler request) fixed_logits of
             Inl e \<Rightarrow> Inl e
           | Inr raw \<Rightarrow>
               (case clean_model_response raw of
                  Inl e \<Rightarrow> Inl e
                | Inr cleaned \<Rightarrow>
                    (case count_tokens lib tok cleaned of
                       Inl e \<Rightarrow> Inl e
                     | Inr n \<Rightarrow> Inr \<lparr>response = cleaned, tokens_generated = n\<rparr>))))"

definition no_model_loaded :: HTTPException where
  "no_model_loaded = HTTPException 400 (py ''No model loaded. Call /load first.'')"

definition generation_failed :: "exc \<Rightarrow> HTTPException" where
  "generation_failed e = HTTPException 500 (py ''Generation failed: '' @ exc_str e)"

definition generate_text ::
  "('m, 't) mlx_lm \<Rightarrow> ('m, 't) globals \<Rightarrow> GenerateRequest \<Rightarrow> HTTPException + GenerateResponse" where
  "generate_text lib g request =
     (case (model g, tokenizer g) of
        (Some m, Some tok) \<Rightarrow>
          (case generate_body lib m tok request of
             Inl e \<Rightarrow> Inl (generation_failed e)
           | Inr r \<Rightarrow> Inr r)
      | _ \<Rightarrow> Inl no_model_loaded)"

text \<open>The JSON body of a \<open>POST /generate\<close>, as far as the clients of this repository fill
  it, and its validation against the \<open>GenerateRequest\<close> model: \<open>prompt\<close> is required,
  \<open>max_tokens\<close> and \<open>temperature\<close> have defaults, and fields the model does not declare
  are dropped.\<close>

record generate_json =
  json_prompt :: "pystr option"
  json_max_tokens :: "int option"
  json_temperature :: "real option"
  json_top_p :: "real option"
  json_min_p :: "real option"

definition validate_generate :: "generate_json \<Rightarrow> GenerateRequest option" where
  "validate_generate body =
     (case json_prompt body of
        None \<Rightarrow> None
      | Some p \<Rightarrow>
          Some \<lparr>prompt = p,
                max_tokens = (case json_max_tokens body of None \<Rightarrow> 150 | Some n \<Rightarrow> n),
                temperature = (case json_temperature body of None \<Rightarrow> 7 / 10 | Some t \<Rightarrow> t)\<rparr>)"

subsection \<open>Histories of lifecycle calls\<close>

datatype ('m, 't) call = Load LoadRequest "('m, 't) load_outcome" | Unload cache_outcome

fun step :: "('m, 't) globals \<Rightarrow> ('m, 't) call \<Rightarrow> ('m, 't) globals" where
  "step g (Load request outcome) = snd (load_model g request outcome)"
| "step g (Unload outcome) = fst (snd (unload_model g outcome))"

definition run :: "('m, 't) call list \<Rightarrow> ('m, 't) globals" where
  "run calls = foldl step initial_globals calls"

text \<open>A call that is not a load returning a model.\<close>

fun no_success :: "('m, 't) call \<Rightarrow> bool" where
  "no_success (Load request (LoadReturns m t)) = False"
| "no_success c = True"

text \<open>The two facts that hold of the globals after every history: model and tokenizer are
  set together, and a loaded model has its path recorded.\<close>

definition paired :: "('m, 't) globals \<Rightarrow> bool" where
  "paired g = ((model g = None) = (tokenizer g = None))"

definition path_recorded :: "('m, 't) globals \<Rightarrow> bool" where
  "path_recorded g = (model g = None \<or> current_model_path g \<noteq> None)"

text \<open>A marker no proper prefix of which is also its suffix: two occurrences of it cannot
  overlap.  All four markers of the cleaning step are of this kind.\<close>

definition unbordered :: "pystr \<Rightarrow> bool" where
  "unbordered m = list_all (\<lambda>d. drop d m \<noteq> take (length m - d) m) [1..<length m]"

section \<open>Lifecycle properties\<close>

lemma paired_step: "paired g \<Longrightarrow> paired (step g c)"
  by (cases c) (auto simp: paired_def load_model_def unload_model_def release_previous_def
      split: load_outcome.splits)

lemma paired_foldl: "paired g \<Longrightarrow> paired (foldl step g calls)"
  by (induction calls arbitrary: g) (simp_all add: paired_step)

lemma paired_run: "paired (run calls)"
  unfolding run_def by (rule paired_foldl) (simp add: paired_def initial_globals_def)

lemma path_recorded_step: "path_recorded g \<Longrightarrow> path_recorded (step g c)"
  by (cases c) (auto simp: path_recorded_def load_model_def unload_model_def release_previous_def
      split: load_outcome.splits)

lemma path_recorded_foldl: "path_recorded g \<Longrightarrow> path_recorded (foldl step g calls)"
  by (induction calls arbitrary: g) (simp_all add: path_recorded_step)

lemma path_recorded_run: "path_recorded (run calls)"
  unfolding run_def by (rule path_recorded_foldl) (simp add: path_recorded_def initial_globals_def)

lemma no_success_step: "no_success c \<Longrightarrow> model g = None \<Longrightarrow> model (step g c) = None"
  by (cases c rule: no_success.cases)
     (auto simp: load_model_def unload_model_def release_previous_def)

lemma no_success_foldl:
  "list_all no_success calls \<Longrightarrow> model g = None \<Longrightarrow> model (foldl step g calls) = None"
  by (induction calls arbitrary: g) (simp_all add: no_success_step)

text \<open>C2: after any sequence of load and unload calls, whatever their outcomes, the model
  handle and the tokenizer are both set or both \<open>None\<close>.\<close>

theorem lifecycle_handle_tokenizer_agree:
  "(model (run calls) = None) = (tokenizer (run calls) = None)"
  using paired_run [of calls] by (simp add: paired_def)

text \<open>C1: with no model (or no tokenizer) \<open>generate_text\<close> answers with the HTTP 400
  "No model loaded" error whatever the library would do; so it does after any history
  without a successful load; and that error differs from every generation failure.\<close>

theorem generate_requires_model:
  "(model g = None \<or> tokenizer g = None \<longrightarrow>
      generate_text lib g request
        = Inl (HTTPException 400 (py ''No model loaded. Call /load first.'')))
   \<and> (list_all no_success calls \<longrightarrow>
      generate_text lib (run calls) request
        = Inl (HTTPException 400 (py ''No model loaded. Call /load first.'')))
   \<and> generation_failed e \<noteq> HTTPException 400 (py ''No model loaded. Call /load first.'')"
proof (intro conjI impI)
  have none: "generate_text lib g' request = Inl no_model_loaded"
    if "model g' = None \<or> tokenizer g' = None" for g' :: "('a, 'b) globals"
    using that by (auto simp: generate_text_def split: option.splits)
  show "generate_text lib g request
        = Inl (HTTPException 400 (py ''No model loaded. Call /load first.''))"
    if "model g = None \<or> tokenizer g = None"
    using none [OF that] by (simp add: no_model_loaded_def)
  show "generate_text lib (run calls) request
        = Inl (HTTPException 400 (py ''No model loaded. Call /load first.''))"
    if "list_all no_success calls"
  proof -
    have "model (run calls) = None"
      unfolding run_def using that by (rule no_success_foldl) (simp add: initial_globals_def)
    then show ?thesis
      using none [of "run calls"] by (simp add: no_model_loaded_def)
  qed
  show "generation_failed e \<noteq> HTTPException 400 (py ''No model loaded. Call /load first.'')"
    by (simp add: generation_failed_def)
qed

theorem generate_requires_model_witness:
  "generate_text
     \<lparr>apply_chat_template = (\<lambda>tok messages thinking. Inr (py ''formatted'')),
      generate = (\<lambda>m tok p n s l. Inr (py ''raw'')),
      encode = (\<lambda>tok r. Inr [1, 2])\<rparr>
     (run [Load \<lparr>model_path = py ''/nonexistent''\<rparr> (LoadRaises (OtherError (py ''boom''))),
           Unload CacheCleared] :: (unit, unit) globals)
     \<lparr>prompt = py ''Hello'', max_tokens = 50, temperature = 7 / 10\<rparr>
   = Inl (HTTPException 400 (py ''No model loaded. Call /load first.''))"
  using generate_requires_model [of "initial_globals :: (unit, unit) globals"
      "\<lparr>apply_chat_template = (\<lambda>tok messages thinking. Inr (py ''formatted'')),
        generate = (\<lambda>m tok p n s l. Inr (py ''raw'')),
        encode = (\<lambda>tok r. Inr [1, 2])\<rparr>"
      "\<lparr>prompt = py ''Hello'', max_tokens = 50, temperature = 7 / 10\<rparr>"
      "[Load \<lparr>model_path = py ''/nonexistent''\<rparr> (LoadRaises (OtherError (py ''boom''))),
        Unload CacheCleared]" "OtherError []"]
  by simp

text \<open>C8: \<open>unload_model\<close> never answers with an error.  With no model it changes nothing
  and reports \<open>no_model_loaded\<close>; with a model it clears the three globals and reports
  \<open>unloaded\<close>; a failing cache release changes neither the response nor the globals and
  only logs a warning.\<close>

theorem unload_never_fails:
  "(model g = None \<longrightarrow>
      unload_model g outcome
        = (Inr \<lparr>status = py ''no_model_loaded'', model_loaded = False, status_model_path = None\<rparr>,
           g, []))
   \<and> (model g \<noteq> None \<longrightarrow>
      fst (unload_model g outcome)
        = Inr \<lparr>status = py ''unloaded'', model_loaded = False, status_model_path = None\<rparr>
      \<and> fst (snd (unload_model g outcome))
        = \<lparr>model = None, tokenizer = None, current_model_path = None\<rparr>)
   \<and> (\<forall>h. fst (unload_model g outcome) \<noteq> Inl h)
   \<and> fst (unload_model g (CacheRaises e)) = fst (unload_model g CacheCleared)
   \<and> fst (snd (unload_model g (CacheRaises e))) = fst (snd (unload_model g CacheCleared))
   \<and> (model g \<noteq> None \<longrightarrow>
      snd (snd (unload_model g (CacheRaises e)))
        = [py ''Failed to clear MLX Metal cache: '' @ exc_str e])
   \<and> \<not> model_loaded (get_status (fst (snd (unload_model g outcome))))"
  by (simp add: unload_model_def get_status_def)

theorem unload_never_fails_witness:
  "unload_model (initial_globals :: (unit, unit) globals) CacheCleared
     = (Inr \<lparr>status = py ''no_model_loaded'', model_loaded = False, status_model_path = None\<rparr>,
        initial_globals, [])
   \<and> unload_model \<lparr>model = Some (), tokenizer = Some (), current_model_path = Some (py ''m'')\<rparr>
        (CacheRaises (OtherError (py ''no metal'')))
     = (Inr \<lparr>status = py ''unloaded'', model_loaded = False, status_model_path = None\<rparr>,
        \<lparr>model = None, tokenizer = None, current_model_path = None\<rparr>,
        [py ''Failed to clear MLX Metal cache: no metal''])"
  using unload_never_fails [of "initial_globals :: (unit, unit) globals" CacheCleared "OtherError []"]
    unload_never_fails [of "\<lparr>model = Some (), tokenizer = Some (), current_model_path = Some (py ''m'')\<rparr>"
      "CacheRaises (OtherError (py ''no metal''))" "OtherError (py ''no metal'')"]
  by (simp add: initial_globals_def prod_eq_iff py_def)




text \<open>C10: when a model is loaded and a further load call fails in \<open>load\<close>, model and
  tokenizer are cleared but the recorded path stays: the status then reports no model
  together with the previous path.\<close>

theorem failed_reload_keeps_path:
  assumes "g = run calls"
    and "model g \<noteq> None"
    and "load_model g request (LoadRaises e) = (r, g')"
  shows "\<exists>p. current_model_path g = Some p
    \<and> model g' = None \<and> tokenizer g' = None
    \<and> get_status g' = \<lparr>status = py ''running'', model_loaded = False, status_model_path = Some p\<rparr>"
proof -
  have "path_recorded g"
    using assms(1) path_recorded_run by simp
  then obtain p where "current_model_path g = Some p"
    using assms(2) by (auto simp: path_recorded_def)
  then show ?thesis
    using assms(2,3)
    by (auto simp: load_model_def release_previous_def get_status_def)
qed

theorem failed_reload_keeps_path_witness:
  "get_status (snd (load_model (run [Load \<lparr>model_path = py ''a''\<rparr> (LoadReturns () ())])
      \<lparr>model_path = py ''b''\<rparr> (LoadRaises (OtherError (py ''boom'')))))
   = \<lparr>status = py ''running'', model_loaded = False, status_model_path = Some (py ''a'')\<rparr>"
proof -
  let ?g = "run [Load \<lparr>model_path = py ''a''\<rparr> (LoadReturns () ())] :: (unit, unit) globals"
  have g: "?g = \<lparr>model = Some (), tokenizer = Some (), current_model_path = Some (py ''a'')\<rparr>"
    by (simp add: run_def initial_globals_def load_model_def release_previous_def)
  have "model ?g \<noteq> None"
    by (simp add: g)
  from failed_reload_keeps_path [OF refl this surjective_pairing]
  show ?thesis
    by (auto simp: g)
qed

section \<open>String search, splitting and trimming\<close>

lemma str_index_le: "str_index sub s = Some i \<Longrightarrow> i + length sub \<le> length s"
proof (induction s arbitrary: i)
  case Nil
  then show ?case by (simp split: if_splits)
next
  case (Cons c cs)
  show ?case
  proof (cases "prefix sub (c # cs)")
    case True
    then show ?thesis using Cons.prems prefix_length_le [OF True] by simp
  next
    case False
    then obtain j where "str_index sub cs = Some j" "i = Suc j"
      using Cons.prems by auto
    then show ?thesis using Cons.IH by auto
  qed
qed

lemma str_index_prefix: "str_index sub s = Some i \<Longrightarrow> prefix sub (drop i s)"
proof (induction s arbitrary: i)
  case Nil
  then show ?case by (simp split: if_splits)
next
  case (Cons c cs)
  show ?case
  proof (cases "prefix sub (c # cs)")
    case True
    then show ?thesis using Cons.prems by simp
  next
    case False
    then obtain j where "str_index sub cs = Some j" "i = Suc j"
      using Cons.prems by auto
    then show ?thesis using Cons.IH by auto
  qed
qed

lemma str_index_leftmost: "str_index sub s = Some i \<Longrightarrow> j < i \<Longrightarrow> \<not> prefix sub (drop j s)"
proof (induction s arbitrary: i j)
  case Nil
  then show ?case by (simp split: if_splits)
next
  case (Cons c cs)
  show ?case
  proof (cases "prefix sub (c # cs)")
    case True
    then show ?thesis using Cons.prems by simp
  next
    case False
    then obtain k where k: "str_index sub cs = Some k" "i = Suc k"
      using Cons.prems by auto
    show ?thesis
    proof (cases j)
      case 0
      then show ?thesis using False by simp
    next
      case (Suc j')
      then show ?thesis using Cons.IH [OF k(1), of j'] Cons.prems(2) k(2) by simp
    qed
  qed
qed

lemma str_index_None: "str_index sub s = None \<longleftrightarrow> \<not> sublist sub s"
  by (induction s) (auto simp: sublist_Cons_right)

lemma str_index_split:
  assumes "str_index sub s = Some i"
  shows "s = take i s @ sub @ drop (i + length sub) s"
proof -
  from str_index_prefix [OF assms] obtain r where r: "drop i s = sub @ r"
    by (auto simp: prefix_def)
  then have "drop (i + length sub) s = r"
    by (metis add.commute append_eq_conv_conj drop_drop)
  then show ?thesis
    using r by (metis append_take_drop_id)
qed

lemma str_index_eqI:
  assumes "prefix sub (drop i s)" "i \<le> length s" "\<And>j. j < i \<Longrightarrow> \<not> prefix sub (drop j s)"
  shows "str_index sub s = Some i"
proof -
  have "sublist sub s"
    using assms(1) by (metis prefix_def sublist_def append_take_drop_id)
  then obtain k where k: "str_index sub s = Some k"
    using str_index_None by (cases "str_index sub s") auto
  have "\<not> k < i" using str_index_prefix [OF k] assms(3) by blast
  moreover have "\<not> i < k" using str_index_leftmost [OF k] assms(1) by blast
  ultimately show ?thesis using k by simp
qed

lemma unborderedD:
  "unbordered m \<Longrightarrow> 0 < d \<Longrightarrow> d < length m \<Longrightarrow> drop d m \<noteq> take (length m - d) m"
  by (auto simp: unbordered_def list_all_iff)

lemma prefix_straddle:
  assumes "unbordered m" and "prefix m (x @ m @ r)"
  shows "x = [] \<or> prefix m x"
proof (rule ccontr)
  assume neg: "\<not> (x = [] \<or> prefix m x)"
  obtain z where z: "x @ m @ r = m @ z"
    using assms(2) by (auto simp: prefix_def)
  have tk: "take (length m) (x @ m @ r) = m"
    by (simp add: z)
  have short: "length x < length m"
  proof (rule ccontr)
    assume "\<not> length x < length m"
    then have "take (length m) (x @ m @ r) = take (length m) x"
      by simp
    then have "prefix m x"
      using tk by (metis take_is_prefix)
    then show False using neg by simp
  qed
  have "m = x @ take (length m - length x) m"
    using tk short by simp
  then have "drop (length x) m = take (length m - length x) m"
    by (metis append_eq_conv_conj)
  moreover have "0 < length x"
    using neg by simp
  ultimately show False
    using unborderedD [OF assms(1) _ short] by blast
qed

lemma str_index_append:
  assumes "unbordered m" and "\<not> sublist m a"
  shows "str_index m (a @ m @ r) = Some (length a)"
proof (rule str_index_eqI)
  show "prefix m (drop (length a) (a @ m @ r))"
    by simp
  show "length a \<le> length (a @ m @ r)"
    by simp
  fix j assume j: "j < length a"
  show "\<not> prefix m (drop j (a @ m @ r))"
  proof
    assume "prefix m (drop j (a @ m @ r))"
    then have "prefix m (drop j a @ m @ r)"
      using j by simp
    then have "prefix m (drop j a)"
      using prefix_straddle [OF assms(1)] j by fastforce
    then have "sublist m a"
      by (metis prefix_imp_sublist sublist_drop sublist_order.order_trans)
    then show False using assms(2) by simp
  qed
qed

lemma think_open_code: "think_open = [60, 116, 104, 105, 110, 107, 62]"
  by (simp add: think_open_def py_def)

lemma think_close_code: "think_close = [60, 47, 116, 104, 105, 110, 107, 62]"
  by (simp add: think_close_def py_def)

lemma output_marker_code: "output_marker = [79, 117, 116, 112, 117, 116, 58]"
  by (simp add: output_marker_def py_def)

lemma text_marker_code: "text_marker = [84, 101, 120, 116, 58]"
  by (simp add: text_marker_def py_def)

lemma upt_1_Suc: "[1..<Suc n] = (if n = 0 then [] else [1..<n] @ [n])"
  by auto

lemma unbordered_markers:
  "unbordered think_open" "unbordered think_close" "unbordered output_marker"
  "unbordered text_marker"
  by (simp_all add: unbordered_def think_open_code think_close_code output_marker_code
      text_marker_code upt_rec)

section \<open>Properties of the response cleaning\<close>

declare split_at.simps [simp del] re_sub_delimited.simps [simp del] str_count.simps [simp del]

lemma re_sub_delimited_Nil: "re_sub_delimited opn cls [] = []"
  by (simp add: re_sub_delimited.simps)

lemma re_sub_delimited_keep:
  "\<not> prefix opn (c # cs) \<Longrightarrow> re_sub_delimited opn cls (c # cs) = c # re_sub_delimited opn cls cs"
  by (simp add: re_sub_delimited.simps)

lemma re_sub_delimited_unclosed:
  "str_index cls (drop (length opn) (c # cs)) = None \<Longrightarrow>
   re_sub_delimited opn cls (c # cs) = c # re_sub_delimited opn cls cs"
  by (simp add: re_sub_delimited.simps)



lemma re_sub_delimited_no_block:
  assumes "\<And>a b c. s \<noteq> a @ opn @ b @ cls @ c"
  shows "re_sub_delimited opn cls s = s"
  using assms
proof (induction s)
  case Nil
  show ?case by (rule re_sub_delimited_Nil)
next
  case (Cons x xs)
  have tail: "re_sub_delimited opn cls xs = xs"
  proof (rule Cons.IH)
    fix a b c
    show "xs \<noteq> a @ opn @ b @ cls @ c"
      using Cons.prems [of "x # a" b c] by auto
  qed
  have "\<not> prefix opn (x # xs) \<or> str_index cls (drop (length opn) (x # xs)) = None"
  proof (rule ccontr)
    assume "\<not> ?thesis"
    then obtain k where p: "prefix opn (x # xs)"
      and k: "str_index cls (drop (length opn) (x # xs)) = Some k"
      by auto
    from p have "x # xs = opn @ drop (length opn) (x # xs)"
      by (metis append_eq_conv_conj prefix_def)
    with str_index_split [OF k]
    have "x # xs = [] @ opn @ take k (drop (length opn) (x # xs)) @ cls
                    @ drop (k + length cls) (drop (length opn) (x # xs))"
      by simp
    then show False
      using Cons.prems by blast
  qed
  then show ?case
    using tail by (auto simp: re_sub_delimited_keep re_sub_delimited_unclosed)
qed

lemma lstrip_Nil_iff: "lstrip s = [] \<longleftrightarrow> (\<forall>c\<in>set s. isspace c)"
  by (simp add: lstrip_def dropWhile_eq_Nil_conv)

lemma rstrip_Nil_iff: "rstrip s = [] \<longleftrightarrow> (\<forall>c\<in>set s. isspace c)"
  by (simp add: rstrip_def dropWhile_eq_Nil_conv)

lemma lstrip_hd: "lstrip s \<noteq> [] \<Longrightarrow> \<not> isspace (hd (lstrip s))"
  unfolding lstrip_def by (rule hd_dropWhile)

lemma rstrip_last: "rstrip s \<noteq> [] \<Longrightarrow> \<not> isspace (last (rstrip s))"
  unfolding rstrip_def by (simp add: last_rev hd_dropWhile)

lemma strip_Nil_iff: "strip s = [] \<longleftrightarrow> (\<forall>c\<in>set s. isspace c)"
proof
  assume "strip s = []"
  then have all: "\<forall>c\<in>set (lstrip s). isspace c"
    by (simp add: strip_def rstrip_Nil_iff)
  have "lstrip s = []"
  proof (rule ccontr)
    assume ne: "lstrip s \<noteq> []"
    then have "hd (lstrip s) \<in> set (lstrip s)" by simp
    then show False using all lstrip_hd [OF ne] by blast
  qed
  then show "\<forall>c\<in>set s. isspace c"
    by (simp add: lstrip_Nil_iff)
next
  assume "\<forall>c\<in>set s. isspace c"
  then have "lstrip s = []" by (simp add: lstrip_Nil_iff)
  then show "strip s = []" by (simp add: strip_def rstrip_def)
qed

lemma lstrip_keep: "s \<noteq> [] \<Longrightarrow> \<not> isspace (hd s) \<Longrightarrow> lstrip s = s"
  by (cases s) (simp_all add: lstrip_def)

lemma rstrip_keep: "s \<noteq> [] \<Longrightarrow> \<not> isspace (last s) \<Longrightarrow> rstrip s = s"
  by (cases s rule: rev_cases) (simp_all add: rstrip_def)

lemma rstrip_idem: "rstrip (rstrip s) = rstrip s"
proof (cases "rstrip s = []")
  case True
  then show ?thesis by (simp add: rstrip_def)
next
  case False
  then show ?thesis by (simp add: rstrip_keep rstrip_last)
qed

lemma sublist_lstrip: "sublist (lstrip s) s"
  by (simp add: lstrip_def sublist_dropWhile)

lemma prefix_rstrip: "prefix (rstrip s) s"
  using suffix_dropWhile [of isspace "rev s"] by (simp add: suffix_to_prefix rstrip_def)

lemma suffix_lstrip: "suffix (lstrip s) s"
  by (simp add: lstrip_def suffix_dropWhile)

lemma sublist_strip: "sublist (strip s) s"
  unfolding strip_def
  by (meson prefix_rstrip prefix_imp_sublist sublist_lstrip sublist_order.order_trans)

lemma rstrip_hd: "rstrip s \<noteq> [] \<Longrightarrow> hd (rstrip s) = hd s"
  using prefix_rstrip [of s] by (metis hd_append2 prefix_def)

lemma strip_idem: "strip (strip s) = strip s"
proof (cases "strip s = []")
  case True
  have "strip [] = []"
    by (simp add: strip_def lstrip_def rstrip_def)
  then show ?thesis
    using True by simp
next
  case False
  then have ne: "rstrip (lstrip s) \<noteq> []" and ne': "lstrip s \<noteq> []"
    by (auto simp: strip_def rstrip_def)
  have "\<not> isspace (hd (rstrip (lstrip s)))"
    using rstrip_hd [OF ne] lstrip_hd [OF ne'] by simp
  then have "lstrip (rstrip (lstrip s)) = rstrip (lstrip s)"
    using ne by (rule lstrip_keep [rotated])
  then show ?thesis
    by (simp add: strip_def rstrip_idem)
qed

lemma split_at_None: "str_index sep s = None \<Longrightarrow> split_at sep s = [s]"
  by (simp add: split_at.simps)

lemma split_at_Some:
  "sep \<noteq> [] \<Longrightarrow> str_index sep s = Some i \<Longrightarrow>
   split_at sep s = take i s # split_at sep (drop (i + length sep) s)"
  by (simp add: split_at.simps)

lemma split_at_not_Nil: "split_at sep s \<noteq> []"
  by (subst split_at.simps) (simp split: option.splits)

lemma hd_split_at:
  "sep \<noteq> [] \<Longrightarrow>
   hd (split_at sep s) = (case str_index sep s of None \<Rightarrow> s | Some k \<Rightarrow> take k s)"
  by (subst split_at.simps) (simp split: option.splits)

lemma index0_split_at:
  "sep \<noteq> [] \<Longrightarrow>
   index0 (split_at sep s) = Inr (case str_index sep s of None \<Rightarrow> s | Some k \<Rightarrow> take k s)"
  by (subst split_at.simps) (simp add: index0_def split: option.splits)

lemma split_at_append:
  assumes "unbordered sep" and "sep \<noteq> []" and "\<not> sublist sep a"
  shows "split_at sep (a @ sep @ r) = a # split_at sep r"
  using split_at_Some [OF assms(2) str_index_append [OF assms(1,3), of r]] by simp

lemma marker_not_Nil:
  "think_open \<noteq> []" "think_close \<noteq> []" "output_marker \<noteq> []" "text_marker \<noteq> []"
  "paragraph_break \<noteq> []"
  by (simp_all add: think_open_code think_close_code output_marker_code text_marker_code
      paragraph_break_def)

lemma output_stage_Inr:
  "output_stage s = Inr
     (if str_contains output_marker s then
        (case first_clean_part (tl (split_at output_marker s)) of
           None \<Rightarrow> s
         | Some p \<Rightarrow> (case str_index paragraph_break p of None \<Rightarrow> p | Some k \<Rightarrow> take k p))
      else s)"
  by (simp add: output_stage_def str_split_def marker_not_Nil index0_split_at
      split: option.splits)

lemma clean_model_response_Inr:
  "clean_model_response s = Inr (strip (text_stage (projr (output_stage (strip_think s)))))"
proof (cases "s = []")
  case True
  then show ?thesis
    by (simp add: clean_model_response_def strip_think_def re_sub_delimited_Nil
        output_stage_Inr str_contains_def output_marker_code text_stage_def
        str_count.simps text_marker_code strip_def lstrip_def rstrip_def)
next
  case False
  then show ?thesis
    by (simp add: clean_model_response_def output_stage_Inr)
qed


lemma strip_think_no_block:
  assumes "\<forall>a b c. s \<noteq> a @ think_open @ b @ think_close @ c"
  shows "strip_think s = s"
  unfolding strip_think_def using assms by (intro re_sub_delimited_no_block) blast


lemmas clean_eval =
  clean_model_response_def strip_think_def think_open_code think_close_code
  output_stage_def str_contains_def str_split_def index0_def output_marker_code
  paragraph_break_def text_stage_def text_marker_code str_find_def str_find_from_def
  strip_def lstrip_def rstrip_def isspace_def py_def
  re_sub_delimited.simps split_at.simps str_count.simps




lemma sublist_set: "sublist m s \<Longrightarrow> set m \<subseteq> set s"
  by (auto simp: sublist_def)

lemma blank_no_output_marker: "strip b = [] \<Longrightarrow> \<not> sublist output_marker b"
proof
  assume "strip b = []" and "sublist output_marker b"
  then have "isspace 79"
    using sublist_set [of output_marker b] by (auto simp: strip_Nil_iff output_marker_code)
  then show False
    by (simp add: isspace_def)
qed

lemma first_clean_part_blanks:
  assumes "\<forall>b\<in>set blanks. strip b = []" and "\<not> sublist output_marker part"
    and "strip part \<noteq> []" and "rest = [] \<or> prefix output_marker rest"
  shows "first_clean_part
           (split_at output_marker (concat (map (\<lambda>b. b @ output_marker) blanks) @ part @ rest))
         = Some (strip part)"
  using assms(1)
proof (induction blanks)
  case Nil
  show ?case
  proof (cases "rest = []")
    case True
    then show ?thesis
      using assms(2,3) by (simp add: split_at_None str_index_None)
  next
    case False
    then obtain r where "rest = output_marker @ r"
      using assms(4) by (auto simp: prefix_def)
    then show ?thesis
      using assms(2,3) split_at_append [OF unbordered_markers(3) marker_not_Nil(3), of part r]
      by simp
  qed
next
  case (Cons b blanks)
  have "\<not> sublist output_marker b"
    using Cons.prems by (simp add: blank_no_output_marker)
  from split_at_append [OF unbordered_markers(3) marker_not_Nil(3) this]
  show ?case
    using Cons by simp
qed

text \<open>C4: without \<open>Output:\<close> the stage changes nothing; otherwise, of the parts after the
  first \<open>Output:\<close>, those that are blank are skipped and the first other one is taken,
  trimmed, and cut at its first double newline; \<open>Output: Hello\<close>, a blank line and
  \<open>Output: World\<close> are cleaned to \<open>Hello\<close>.\<close>

theorem output_stage_first_section:
  "(\<not> sublist output_marker s \<longrightarrow> output_stage s = Inr s)
   \<and> (\<not> sublist output_marker pre \<and> (\<forall>b\<in>set blanks. strip b = [])
        \<and> \<not> sublist output_marker part \<and> strip part \<noteq> []
        \<and> (rest = [] \<or> prefix output_marker rest) \<longrightarrow>
       output_stage
         (pre @ output_marker @ concat (map (\<lambda>b. b @ output_marker) blanks) @ part @ rest)
       = Inr (case str_index paragraph_break (strip part) of
                None \<Rightarrow> strip part
              | Some k \<Rightarrow> take k (strip part)))
   \<and> clean_model_response (py ''Output: Hello\<newline>\<newline>Output: World'') = Inr (py ''Hello'')"
proof (intro conjI impI)
  show "output_stage s = Inr s" if "\<not> sublist output_marker s"
    using that by (simp add: output_stage_Inr str_contains_def str_index_None)
  show "output_stage
         (pre @ output_marker @ concat (map (\<lambda>b. b @ output_marker) blanks) @ part @ rest)
       = Inr (case str_index paragraph_break (strip part) of
                None \<Rightarrow> strip part
              | Some k \<Rightarrow> take k (strip part))"
    if h: "\<not> sublist output_marker pre \<and> (\<forall>b\<in>set blanks. strip b = [])
        \<and> \<not> sublist output_marker part \<and> strip part \<noteq> []
        \<and> (rest = [] \<or> prefix output_marker rest)"
  proof -
    let ?tail = "concat (map (\<lambda>b. b @ output_marker) blanks) @ part @ rest"
    have "str_contains output_marker (pre @ output_marker @ ?tail)"
      by (simp add: str_contains_def str_index_None)
    moreover have "split_at output_marker (pre @ output_marker @ ?tail)
        = pre # split_at output_marker ?tail"
      using h by (intro split_at_append unbordered_markers marker_not_Nil) simp
    moreover have "first_clean_part (split_at output_marker ?tail) = Some (strip part)"
      using h by (intro first_clean_part_blanks) simp_all
    ultimately show ?thesis
      by (simp add: output_stage_Inr)
  qed
  show "clean_model_response (py ''Output: Hello\<newline>\<newline>Output: World'') = Inr (py ''Hello'')"
    by (simp add: clean_eval)
qed

theorem output_stage_first_section_witness:
  "output_stage (py ''plain answer'') = Inr (py ''plain answer'')
   \<and> output_stage (py ''x Output: Output: Hello\<newline>\<newline>more Output: World'') = Inr (py ''Hello'')"
proof -
  have a: "\<not> sublist output_marker (py ''plain answer'')"
    by (simp add: output_marker_code py_def sublist_Cons_right)
  have b: "\<not> sublist output_marker (py ''x '')"
    by (simp add: output_marker_code py_def sublist_Cons_right)
  have c: "\<forall>b\<in>set [py '' '']. strip b = []"
    by (simp add: py_def strip_def lstrip_def rstrip_def isspace_def)
  have d: "\<not> sublist output_marker (py '' Hello\<newline>\<newline>more '')"
    by (simp add: output_marker_code py_def sublist_Cons_right)
  have e: "strip (py '' Hello\<newline>\<newline>more '') = py ''Hello\<newline>\<newline>more''"
    by (simp add: py_def strip_def lstrip_def rstrip_def isspace_def)
  have f: "prefix output_marker (py ''Output: World'')"
    by (simp add: output_marker_code py_def)
  show ?thesis
    using output_stage_first_section [of "py ''plain answer''" "py ''x ''" "[py '' '']"
        "py '' Hello\<newline>\<newline>more ''" "py ''Output: World''"] a b c d e f
    by (simp add: output_marker_code paragraph_break_def py_def)
qed

lemma str_count_None: "sub \<noteq> [] \<Longrightarrow> str_index sub s = None \<Longrightarrow> str_count sub s = 0"
  by (induction s) (auto simp: str_count.simps split: if_splits)

lemma str_count_Some:
  "sub \<noteq> [] \<Longrightarrow> str_index sub s = Some i \<Longrightarrow>
   str_count sub s = Suc (str_count sub (drop (i + length sub) s))"
proof (induction s arbitrary: i)
  case Nil
  then show ?case by simp
next
  case (Cons c cs)
  show ?case
  proof (cases "prefix sub (c # cs)")
    case True
    then show ?thesis
      using Cons.prems by (simp add: str_count.simps)
  next
    case False
    then obtain j where j: "str_index sub cs = Some j" "i = Suc j"
      using Cons.prems by auto
    then show ?thesis
      using False Cons.prems(1) Cons.IH [OF Cons.prems(1) j(1)] by (simp add: str_count.simps)
  qed
qed

lemma str_count_pos: "sub \<noteq> [] \<Longrightarrow> 0 < str_count sub s \<longleftrightarrow> sublist sub s"
  using str_count_None [of sub s] str_count_Some [of sub s] str_index_None [of sub s]
  by (cases "str_index sub s") auto

lemma str_index_bound:
  assumes "str_index sub s = Some i" and "s = a @ sub @ r"
  shows "i \<le> length a"
proof (rule ccontr)
  assume "\<not> i \<le> length a"
  then have "\<not> prefix sub (drop (length a) s)"
    using str_index_leftmost [OF assms(1)] by simp
  then show False
    using assms(2) by simp
qed

lemma str_count_twice:
  assumes "sub \<noteq> []"
  shows "1 < str_count sub s \<longleftrightarrow> (\<exists>a b c. s = a @ sub @ b @ sub @ c)"
proof
  assume gt: "1 < str_count sub s"
  then obtain i where i: "str_index sub s = Some i"
    using str_count_None [OF assms, of s] by (cases "str_index sub s") auto
  let ?r = "drop (i + length sub) s"
  have "0 < str_count sub ?r"
    using gt str_count_Some [OF assms i] by simp
  then obtain k where k: "str_index sub ?r = Some k"
    using str_count_None [OF assms, of ?r] by (cases "str_index sub ?r") auto
  have "s = take i s @ sub @ take k ?r @ sub @ drop (k + length sub) ?r"
    using str_index_split [OF i] str_index_split [OF k] by simp
  then show "\<exists>a b c. s = a @ sub @ b @ sub @ c"
    by blast
next
  assume "\<exists>a b c. s = a @ sub @ b @ sub @ c"
  then obtain a b c where s: "s = a @ sub @ b @ sub @ c"
    by blast
  then have "sublist sub s"
    by (auto simp: sublist_def)
  then obtain i where i: "str_index sub s = Some i"
    using str_index_None [of sub s] by (cases "str_index sub s") auto
  have le: "i \<le> length a"
    using i s by (rule str_index_bound)
  have "drop (i + length sub) s = drop (i + length sub) (a @ sub) @ b @ sub @ c"
    using le by (simp add: s)
  then have "sublist sub (drop (i + length sub) s)"
    by (metis sublist_def append.assoc)
  then have "0 < str_count sub (drop (i + length sub) s)"
    using assms by (simp add: str_count_pos)
  then show "1 < str_count sub s"
    using str_count_Some [OF assms i] by simp
qed

lemma text_marker_length: "length text_marker = 5"
  by (simp add: text_marker_code)

text \<open>C5: \<open>Text:\<close> counts more than once exactly when it occurs twice; then a text that
  does not start with it is cut at the first occurrence and trimmed, and a text that starts
  with it is cut at the second occurrence and trimmed; a text with at most one \<open>Text:\<close>
  is left as it is; \<open>Hello world Text: repeated Text: again\<close> is cleaned to
  \<open>Hello world\<close>.\<close>

theorem text_stage_cuts_repetition:
  "(1 < str_count text_marker s \<longleftrightarrow> (\<exists>a b c. s = a @ text_marker @ b @ text_marker @ c))
   \<and> (\<not> sublist text_marker pre \<and> pre \<noteq> [] \<and> sublist text_marker rest \<longrightarrow>
        text_stage (pre @ text_marker @ rest) = strip pre)
   \<and> (\<not> sublist text_marker mid \<longrightarrow>
        text_stage (text_marker @ mid @ text_marker @ rest) = strip (text_marker @ mid))
   \<and> (str_count text_marker s \<le> 1 \<longrightarrow> text_stage s = s)
   \<and> clean_model_response (py ''Hello world Text: repeated Text: again'')
       = Inr (py ''Hello world'')"
proof (intro conjI impI)
  show "1 < str_count text_marker s \<longleftrightarrow> (\<exists>a b c. s = a @ text_marker @ b @ text_marker @ c)"
    using marker_not_Nil(4) by (rule str_count_twice)
  show "text_stage (pre @ text_marker @ rest) = strip pre"
    if h: "\<not> sublist text_marker pre \<and> pre \<noteq> [] \<and> sublist text_marker rest"
  proof -
    let ?s = "pre @ text_marker @ rest"
    obtain b c where "rest = b @ text_marker @ c"
      using h by (auto simp: sublist_def)
    then have "1 < str_count text_marker ?s"
      using str_count_twice [OF marker_not_Nil(4), of ?s] by blast
    moreover have "str_index text_marker ?s = Some (length pre)"
      using unbordered_markers(4) h by (intro str_index_append) simp_all
    ultimately show ?thesis
      using h by (simp add: text_stage_def str_find_def)
  qed
  show "text_stage (text_marker @ mid @ text_marker @ rest) = strip (text_marker @ mid)"
    if h: "\<not> sublist text_marker mid"
  proof -
    let ?s = "text_marker @ mid @ text_marker @ rest"
    have "?s = [] @ text_marker @ mid @ text_marker @ rest"
      by simp
    then have "1 < str_count text_marker ?s"
      using str_count_twice [OF marker_not_Nil(4), of ?s] by blast
    moreover have "str_index text_marker ([] @ text_marker @ mid @ text_marker @ rest) = Some (length ([] :: pystr))"
      using unbordered_markers(4) by (rule str_index_append) (simp add: marker_not_Nil)
    moreover have "str_index text_marker (mid @ text_marker @ rest) = Some (length mid)"
      using unbordered_markers(4) h by (rule str_index_append)
    ultimately show ?thesis
      by (simp add: text_stage_def str_find_def str_find_from_def text_marker_length)
  qed
  show "text_stage s = s" if "str_count text_marker s \<le> 1"
    using that by (simp add: text_stage_def)
  show "clean_model_response (py ''Hello world Text: repeated Text: again'')
       = Inr (py ''Hello world'')"
    by (simp add: clean_eval)
qed

theorem text_stage_cuts_repetition_witness:
  "text_stage (py ''Hello Text: a Text: b'') = py ''Hello''
   \<and> text_stage (py ''Text: a Text: b Text: c'') = py ''Text: a''
   \<and> text_stage (py ''Text: only once'') = py ''Text: only once''"
proof -
  have a: "\<not> sublist text_marker (py ''Hello '')"
    by (simp add: text_marker_code py_def sublist_Cons_right)
  have b: "sublist text_marker (py '' a Text: b'')"
    by (simp add: text_marker_code py_def sublist_Cons_right)
  have c: "\<not> sublist text_marker (py '' a '')"
    by (simp add: text_marker_code py_def sublist_Cons_right)
  have d: "str_count text_marker (py ''Text: only once'') \<le> 1"
    by (simp add: text_marker_code py_def str_count.simps)
  have e: "strip (py ''Hello '') = py ''Hello''" "strip (py ''Text: a '') = py ''Text: a''"
    by (simp_all add: py_def strip_def lstrip_def rstrip_def isspace_def)
  show ?thesis
    using text_stage_cuts_repetition [where s = "py ''Text: only once''" and pre = "py ''Hello ''"
        and rest = "py '' a Text: b''" and mid = "py '' a ''"]
      text_stage_cuts_repetition [where s = "[]" and pre = "[]" and rest = "py '' b Text: c''"
        and mid = "py '' a ''"] a b c d e
    by (simp add: text_marker_code py_def)
qed

lemma str_count_sublist:
  assumes "sub \<noteq> []" and "sublist u v" and "str_count sub v \<le> 1"
  shows "str_count sub u \<le> 1"
proof (rule ccontr)
  assume "\<not> str_count sub u \<le> 1"
  then obtain a b c where u: "u = a @ sub @ b @ sub @ c"
    using str_count_twice [OF assms(1), of u] by auto
  obtain p q where "v = p @ u @ q"
    using assms(2) by (auto simp: sublist_def)
  then have "v = (p @ a) @ sub @ b @ sub @ (c @ q)"
    by (simp add: u)
  then have "1 < str_count sub v"
    using str_count_twice [OF assms(1), of v] by blast
  then show False
    using assms(3) by simp
qed

lemma str_count_no_occurrence: "sub \<noteq> [] \<Longrightarrow> \<not> sublist sub s \<Longrightarrow> str_count sub s = 0"
  using str_count_pos [of sub s] by simp

lemma str_index_before:
  assumes "sub \<noteq> []" and "str_index sub s = Some i"
  shows "\<not> sublist sub (take i s)"
proof
  assume "sublist sub (take i s)"
  then obtain a b where ab: "take i s = a @ sub @ b"
    by (auto simp: sublist_def)
  then have "length a + length sub \<le> i"
    by (metis length_append length_take min.cobounded2 add.assoc le_add1 le_trans)
  then have lt: "length a < i"
    using assms(1) by (cases sub) auto
  have "s = a @ sub @ b @ drop i s"
    using ab by (metis append_take_drop_id append.assoc)
  then have "prefix sub (drop (length a) s)"
    by (metis append_eq_conv_conj prefix_def)
  then show False
    using str_index_leftmost [OF assms(2) lt] by simp
qed

lemma once_after_marker:
  assumes "sub \<noteq> []" and "\<not> sublist sub m"
  shows "str_count sub (sub @ m) \<le> 1"
proof (rule ccontr)
  assume "\<not> str_count sub (sub @ m) \<le> 1"
  then obtain a b c where e: "sub @ m = a @ sub @ b @ sub @ c"
    using str_count_twice [OF assms(1), of "sub @ m"] by auto
  have "m = drop (length sub) (sub @ m)"
    by simp
  also have "\<dots> = drop (length sub) ((a @ sub) @ b @ sub @ c)"
    by (simp add: e)
  also have "\<dots> = drop (length sub) (a @ sub) @ b @ sub @ c"
    by simp
  finally have "sublist sub m"
    by (metis sublist_def append.assoc)
  then show False
    using assms(2) by simp
qed

lemma text_stage_cases:
  obtains (same) "text_stage r = r" "str_count text_marker r \<le> 1"
  | (cut) i where "text_stage r = strip (take i r)" "0 < i" "prefix text_marker (drop i r)"
      "str_count text_marker (take i r) \<le> 1"
proof (cases "1 < str_count text_marker r")
  case False
  then show ?thesis
    by (intro same) (simp_all add: text_stage_def)
next
  case True
  then obtain i where i: "str_index text_marker r = Some i"
    using str_count_None [OF marker_not_Nil(4), of r] by (cases "str_index text_marker r") auto
  show ?thesis
  proof (cases "i = 0")
    case False
    have "\<not> sublist text_marker (take i r)"
      using marker_not_Nil(4) i by (rule str_index_before)
    then have "str_count text_marker (take i r) \<le> 1"
      by (simp add: str_count_no_occurrence marker_not_Nil)
    moreover have "text_stage r = strip (take i r)"
      using True False i by (simp add: text_stage_def str_find_def)
    ultimately show ?thesis
      using False str_index_prefix [OF i] by (intro cut [of i]) simp_all
  next
    case zero: True
    let ?d = "drop 5 r"
    have len: "5 \<le> length r"
      using str_index_le [OF i] by (simp add: text_marker_length)
    have "0 < str_count text_marker ?d"
      using True str_count_Some [OF marker_not_Nil(4) i] zero by (simp add: text_marker_length)
    then obtain k where k: "str_index text_marker ?d = Some k"
      using str_count_None [OF marker_not_Nil(4), of ?d]
      by (cases "str_index text_marker ?d") auto
    have r: "r = text_marker @ ?d"
      using str_index_split [OF i] zero by (simp add: text_marker_length)
    have "take (5 + k) r = text_marker @ take k ?d"
      by (subst r) (simp add: text_marker_length)
    moreover have "\<not> sublist text_marker (take k ?d)"
      using marker_not_Nil(4) k by (rule str_index_before)
    ultimately have "str_count text_marker (take (5 + k) r) \<le> 1"
      using once_after_marker [OF marker_not_Nil(4)] by simp
    moreover have "nat (5 + int k) = 5 + k"
      by simp
    then have "text_stage r = strip (take (5 + k) r)"
      using True zero i k len by (simp add: text_stage_def str_find_def str_find_from_def)
    moreover have "prefix text_marker (drop (5 + k) r)"
      using str_index_prefix [OF k] by (simp add: add.commute)
    ultimately show ?thesis
      by (intro cut [of "5 + k"]) simp_all
  qed
qed

lemma text_stage_once: "str_count text_marker (strip (text_stage r)) \<le> 1"
proof (cases r rule: text_stage_cases)
  case same
  then show ?thesis
    using str_count_sublist [OF marker_not_Nil(4) sublist_strip] by simp
next
  case (cut i)
  then show ?thesis
    using str_count_sublist [OF marker_not_Nil(4) sublist_strip]
    by (simp add: strip_idem)
qed

lemma sublist_text_stage: "sublist (strip (text_stage r)) r"
proof (cases r rule: text_stage_cases)
  case same
  then show ?thesis by (simp add: sublist_strip)
next
  case (cut i)
  then show ?thesis
    by (metis strip_idem sublist_strip sublist_take sublist_order.order_trans)
qed

lemma lstrip_append:
  "lstrip (x @ y) = (if \<forall>c\<in>set x. isspace c then lstrip y else lstrip x @ y)"
  by (simp add: lstrip_def dropWhile_append)

lemma rstrip_append:
  "rstrip (x @ y) = (if \<forall>c\<in>set y. isspace c then rstrip x else x @ rstrip y)"
  by (simp add: rstrip_def dropWhile_append)

lemma rstrip_before_marker:
  assumes "sep \<noteq> []" and "\<not> isspace (last sep)"
  shows "rstrip (x @ sep @ y) = x @ sep @ rstrip y"
proof -
  have "rstrip (x @ sep) = x @ sep"
    using assms by (intro rstrip_keep) simp_all
  then show ?thesis
    using rstrip_append [of "x @ sep" y] by (simp add: rstrip_Nil_iff [symmetric])
qed

lemma lstrip_before_marker:
  assumes "sep \<noteq> []" and "\<not> isspace (hd sep)"
  shows "lstrip (x @ sep @ y) = lstrip x @ sep @ y"
proof -
  have "lstrip (sep @ y) = sep @ y"
    using assms by (intro lstrip_keep) simp_all
  then show ?thesis
    using lstrip_append [of x "sep @ y"] by (simp add: lstrip_Nil_iff [symmetric])
qed

lemma blank_no_marker:
  assumes "sep \<noteq> []" and "\<not> isspace (last sep)" and "strip b = []"
  shows "\<not> sublist sep b"
proof
  assume "sublist sep b"
  then have "last sep \<in> set b"
    using sublist_set [of sep b] assms(1) by auto
  then show False
    using assms(2,3) by (auto simp: strip_Nil_iff)
qed

lemma first_clean_part_None: "first_clean_part ps = None \<longleftrightarrow> (\<forall>p\<in>set ps. strip p = [])"
  by (induction ps) (auto simp: Let_def)

lemma first_clean_part_Some:
  "first_clean_part ps = Some p \<Longrightarrow> \<exists>part\<in>set ps. p = strip part"
  by (induction ps) (auto simp: Let_def split: if_splits)

lemma split_at_parts:
  "sep \<noteq> [] \<Longrightarrow> part \<in> set (split_at sep s) \<Longrightarrow> sublist part s \<and> \<not> sublist sep part"
proof (induction sep s rule: split_at.induct)
  case (1 sep s)
  note ne = "1.prems"(1)
  show ?case
  proof (cases "str_index sep s")
    case None
    then show ?thesis
      using "1.prems" by (simp add: split_at_None str_index_None)
  next
    case (Some i)
    note sp = split_at_Some [OF ne Some]
    show ?thesis
    proof (cases "part = take i s")
      case True
      then show ?thesis
        using str_index_before [OF ne Some] by simp
    next
      case False
      then have "part \<in> set (split_at sep (drop (i + length sep) s))"
        using "1.prems" sp by simp
      from "1.IH" [OF ne Some ne this] show ?thesis
        by (meson sublist_drop sublist_order.order_trans)
    qed
  qed
qed

lemma set_split_at:
  "sep \<noteq> [] \<Longrightarrow> set s \<subseteq> (\<Union>p\<in>set (split_at sep s). set p) \<union> set sep"
proof (induction sep s rule: split_at.induct)
  case (1 sep s)
  note ne = "1.prems"(1)
  show ?case
  proof (cases "str_index sep s")
    case None
    then show ?thesis
      by (simp add: split_at_None)
  next
    case (Some i)
    have "set s = set (take i s) \<union> set sep \<union> set (drop (i + length sep) s)"
      using str_index_split [OF Some] by (metis set_append Un_assoc)
    then show ?thesis
      using "1.IH" [OF ne Some ne] split_at_Some [OF ne Some] by auto
  qed
qed

lemma rstrip_parts_blank:
  "unbordered sep \<Longrightarrow> sep \<noteq> [] \<Longrightarrow> \<not> isspace (last sep) \<Longrightarrow>
   \<forall>p\<in>set (split_at sep w). strip p = [] \<Longrightarrow>
   \<forall>p\<in>set (split_at sep (rstrip w)). strip p = []"
proof (induction sep w rule: split_at.induct)
  case (1 sep w)
  note unb = "1.prems"(1) and ne = "1.prems"(2) and nsp = "1.prems"(3) and blank = "1.prems"(4)
  have empty: "split_at sep [] = [[]]"
    using ne by (simp add: split_at_None)
  have blank_Nil: "strip [] = []"
    by (simp add: strip_Nil_iff)
  show ?case
  proof (cases "str_index sep w")
    case None
    then have "strip w = []"
      using blank by (simp add: split_at_None)
    then have "rstrip w = []"
      by (simp add: strip_Nil_iff rstrip_Nil_iff)
    then show ?thesis
      by (simp add: empty blank_Nil)
  next
    case (Some i)
    let ?b = "take i w" and ?w' = "drop (i + length sep) w"
    have parts: "strip ?b = []" "\<forall>p\<in>set (split_at sep ?w'). strip p = []"
      using blank split_at_Some [OF ne Some] by simp_all
    have "w = ?b @ sep @ ?w'"
      by (rule str_index_split [OF Some])
    then have "rstrip w = ?b @ sep @ rstrip ?w'"
      using rstrip_before_marker [OF ne nsp, of ?b ?w'] by simp
    moreover have "\<not> sublist sep ?b"
      using ne nsp parts(1) by (rule blank_no_marker)
    ultimately have "split_at sep (rstrip w) = ?b # split_at sep (rstrip ?w')"
      using split_at_append [OF unb ne] by simp
    then show ?thesis
      using parts "1.IH" [OF ne Some unb ne nsp parts(2)] by simp
  qed
qed

lemma output_marker_ends: "\<not> isspace (hd output_marker)" "\<not> isspace (last output_marker)"
  by (simp_all add: output_marker_code isspace_def)

lemma output_stage_fix:
  "\<not> sublist output_marker u \<or> first_clean_part (tl (split_at output_marker u)) = None \<Longrightarrow>
   output_stage u = Inr u"
  by (auto simp: output_stage_Inr str_contains_def str_index_None)

lemma output_stage_cases:
  obtains (found) r where "output_stage t = Inr r" "sublist r t" "\<not> sublist output_marker r"
  | (blank) "output_stage t = Inr t" "sublist output_marker t"
      "first_clean_part (tl (split_at output_marker t)) = None"
proof (cases "sublist output_marker t")
  case False
  then show ?thesis
    using output_stage_fix [of t] by (intro found [of t]) simp_all
next
  case True
  show ?thesis
  proof (cases "first_clean_part (tl (split_at output_marker t))")
    case None
    then show ?thesis
      using True output_stage_fix [of t] by (intro blank) simp_all
  next
    case (Some p)
    let ?r = "case str_index paragraph_break p of None \<Rightarrow> p | Some k \<Rightarrow> take k p"
    obtain part where part: "part \<in> set (tl (split_at output_marker t))" "p = strip part"
      using first_clean_part_Some [OF Some] by blast
    then have "part \<in> set (split_at output_marker t)"
      by (meson list.set_sel(2) split_at_not_Nil)
    then have "sublist part t" "\<not> sublist output_marker part"
      using split_at_parts [OF marker_not_Nil(3)] by blast+
    moreover have "sublist ?r p"
      by (simp add: sublist_take split: option.splits)
    ultimately have "sublist ?r t" "\<not> sublist output_marker ?r"
      using part(2) by (meson sublist_strip sublist_order.order_trans)+
    moreover have "output_stage t = Inr ?r"
      using True Some by (simp add: output_stage_Inr str_contains_def str_index_None)
    ultimately show ?thesis
      by (intro found [of ?r])
  qed
qed

lemma blank_tail_split:
  assumes "sublist output_marker t"
    and "first_clean_part (tl (split_at output_marker t)) = None"
  obtains p0 w where "t = p0 @ output_marker @ w" "\<not> sublist output_marker p0"
    "\<forall>p\<in>set (split_at output_marker w). strip p = []"
proof -
  obtain i where i: "str_index output_marker t = Some i"
    using assms(1) str_index_None [of output_marker t]
    by (cases "str_index output_marker t") auto
  let ?w = "drop (i + length output_marker) t"
  have "\<forall>p\<in>set (split_at output_marker ?w). strip p = []"
    using assms(2) split_at_Some [OF marker_not_Nil(3) i] by (simp add: first_clean_part_None)
  then show ?thesis
    using str_index_split [OF i] str_index_before [OF marker_not_Nil(3) i] that by blast
qed

lemma blank_tail_strip:
  assumes "sublist output_marker t"
    and "first_clean_part (tl (split_at output_marker t)) = None"
  shows "first_clean_part (tl (split_at output_marker (strip t))) = None"
proof -
  obtain p0 w where t: "t = p0 @ output_marker @ w" and p0: "\<not> sublist output_marker p0"
    and w: "\<forall>p\<in>set (split_at output_marker w). strip p = []"
    using assms by (rule blank_tail_split)
  have "lstrip t = lstrip p0 @ output_marker @ w"
    unfolding t using marker_not_Nil(3) output_marker_ends(1) by (rule lstrip_before_marker)
  then have "strip t = lstrip p0 @ output_marker @ rstrip w"
    using rstrip_before_marker [OF marker_not_Nil(3) output_marker_ends(2)]
    by (simp add: strip_def)
  moreover have "\<not> sublist output_marker (lstrip p0)"
    using p0 by (meson sublist_lstrip sublist_order.order_trans)
  ultimately have "split_at output_marker (strip t)
      = lstrip p0 # split_at output_marker (rstrip w)"
    using split_at_append [OF unbordered_markers(3) marker_not_Nil(3)] by simp
  then show ?thesis
    using rstrip_parts_blank [OF unbordered_markers(3) marker_not_Nil(3) output_marker_ends(2) w]
    by (simp add: first_clean_part_None)
qed

lemma blank_tail_cut:
  assumes "sublist output_marker t"
    and "first_clean_part (tl (split_at output_marker t)) = None"
    and "prefix text_marker (drop n t)"
  shows "\<not> sublist output_marker (take n t)"
proof -
  obtain p0 w where t: "t = p0 @ output_marker @ w" and p0: "\<not> sublist output_marker p0"
    and w: "\<forall>p\<in>set (split_at output_marker w). strip p = []"
    using assms(1,2) by (rule blank_tail_split)
  have tail: "c \<in> set (output_marker @ w) \<Longrightarrow> c \<noteq> 84" for c
  proof
    assume c: "c \<in> set (output_marker @ w)" and "c = 84"
    then have "84 \<in> set w"
      by (auto simp: output_marker_code)
    then obtain p where "p \<in> set (split_at output_marker w)" "84 \<in> set p"
      using set_split_at [OF marker_not_Nil(3), of w] by (auto simp: output_marker_code)
    then have "isspace 84"
      using w by (auto simp: strip_Nil_iff)
    then show False
      by (simp add: isspace_def)
  qed
  obtain z where z: "drop n t = 84 # z"
    using assms(3) by (auto simp: prefix_def text_marker_code)
  have "n < length p0"
  proof (rule ccontr)
    assume "\<not> n < length p0"
    then have "drop n t = drop (n - length p0) (output_marker @ w)"
      by (simp add: t)
    then have "84 \<in> set (output_marker @ w)"
      using z by (metis in_set_dropD list.set_intros(1))
    then show False
      using tail by blast
  qed
  then have "take n t = take n p0"
    by (simp add: t)
  then show ?thesis
    using p0 by (metis sublist_take sublist_order.order_trans)
qed

lemma later_stages_fixed:
  assumes "output_stage t = Inr r"
  defines "y \<equiv> strip (text_stage r)"
  shows "output_stage y = Inr y" and "text_stage y = y" and "strip y = y"
proof -
  show "strip y = y"
    by (simp add: y_def strip_idem)
  show "text_stage y = y"
    using text_stage_once [of r] by (simp add: y_def text_stage_def)
  show "output_stage y = Inr y"
  proof (cases t rule: output_stage_cases)
    case (found r')
    then have "\<not> sublist output_marker r"
      using assms(1) by simp
    then have "\<not> sublist output_marker y"
      unfolding y_def by (meson sublist_text_stage sublist_order.order_trans)
    then show ?thesis
      by (simp add: output_stage_fix)
  next
    case blank
    then have r: "r = t"
      using assms(1) by simp
    show ?thesis
    proof (cases t rule: text_stage_cases)
      case same
      then show ?thesis
        using blank_tail_strip [OF blank(2,3)] by (simp add: y_def r output_stage_fix)
    next
      case (cut i)
      have "\<not> sublist output_marker (take i t)"
        using blank(2,3) cut(3) by (rule blank_tail_cut)
      then have "\<not> sublist output_marker y"
        unfolding y_def r cut(1)
        by (meson sublist_strip sublist_order.order_trans)
      then show ?thesis
        by (simp add: output_stage_fix)
    qed
  qed
qed

text \<open>C6 (amended): cleaning a cleaned response again changes nothing, provided the
  cleaned response holds no \<open><think>...</think>\<close> block.\<close>

theorem clean_idempotent_without_think_block:
  assumes "clean_model_response x = Inr y"
    and "\<forall>a b c. y \<noteq> a @ think_open @ b @ think_close @ c"
  shows "clean_model_response y = Inr y"
proof -
  obtain r where r: "output_stage (strip_think x) = Inr r"
    by (simp add: output_stage_Inr)
  then have y: "y = strip (text_stage r)"
    using assms(1) by (simp add: clean_model_response_Inr)
  have "strip_think y = y"
    using assms(2) by (rule strip_think_no_block)
  then show ?thesis
    using later_stages_fixed [OF r]
    by (simp add: clean_model_response_Inr y [symmetric])
qed

theorem clean_idempotent_without_think_block_witness:
  "clean_model_response (py ''Output: a Text: b Text: c'') = Inr (py ''a'')
   \<and> clean_model_response (py ''a'') = Inr (py ''a'')"
proof -
  have x: "clean_model_response (py ''Output: a Text: b Text: c'') = Inr (py ''a'')"
    by (simp add: clean_eval)
  have "\<not> sublist think_open (py ''a'')"
    by (simp add: think_open_code py_def sublist_Cons_right)
  then have y: "\<forall>a b c. py ''a'' \<noteq> a @ think_open @ b @ think_close @ c"
    by (auto simp: sublist_def)
  show ?thesis
    using clean_idempotent_without_think_block [OF x y] x by simp
qed

text \<open>C6 as stated fails: removing one block can join the pieces of another, which only a
  second cleaning removes.\<close>

theorem clean_not_idempotent_counterexample:
  "clean_model_response (py ''<th<think></think>ink>X</think>Y'') = Inr (py ''<think>X</think>Y'')
   \<and> clean_model_response (py ''<think>X</think>Y'') = Inr (py ''Y'')
   \<and> py ''<think>X</think>Y'' \<noteq> py ''Y''"
  by (simp add: clean_eval)

section \<open>The sampler of \<open>generate_text\<close>\<close>

text \<open>C7 (amended): the sampler that \<open>generate_text\<close> hands to \<open>generate\<close> is built
  from the request's temperature (0.7 when the body omits it) with the fixed
  \<open>top_p = 0.8\<close> and \<open>min_tokens_to_keep = 1\<close>: the handler answers as it would if the
  library were only ever given that sampler; \<open>top_p\<close> and \<open>min_p\<close> fields of the body
  do not reach the validated request.\<close>

theorem sampler_uses_temperature_only:
  assumes "validate_generate body = Some request"
  shows "request_sampler request
      = \<lparr>temp = (case json_temperature body of None \<Rightarrow> 7 / 10 | Some t \<Rightarrow> t),
         top_p = 8 / 10, min_tokens_to_keep = 1\<rparr>
    \<and> validate_generate (body\<lparr>json_top_p := p, json_min_p := q\<rparr>) = Some request
    \<and> generate_text lib g request
      = generate_text
          (lib\<lparr>generate := \<lambda>m tok formatted n s l.
                  generate lib m tok formatted n
                    \<lparr>temp = (case json_temperature body of None \<Rightarrow> 7 / 10 | Some t \<Rightarrow> t),
                     top_p = 8 / 10, min_tokens_to_keep = 1\<rparr> l\<rparr>)
          g request"
proof -
  have s: "request_sampler request
      = \<lparr>temp = (case json_temperature body of None \<Rightarrow> 7 / 10 | Some t \<Rightarrow> t),
         top_p = 8 / 10, min_tokens_to_keep = 1\<rparr>"
    using assms by (auto simp: validate_generate_def request_sampler_def split: option.splits)
  have v: "validate_generate (body\<lparr>json_top_p := p, json_min_p := q\<rparr>) = Some request"
    using assms by (auto simp: validate_generate_def split: option.splits)
  let ?lib = "lib\<lparr>generate := \<lambda>m tok formatted n s l.
                  generate lib m tok formatted n (request_sampler request) l\<rparr>"
  have f: "format_prompt ?lib tok p = format_prompt lib tok p" for tok p
    by (simp add: format_prompt_def Let_def split: sum.splits exc.splits)
  have c: "count_tokens ?lib tok r = count_tokens lib tok r" for tok r
    by (simp add: count_tokens_def)
  have "generate_body ?lib m tok request = generate_body lib m tok request" for m tok
    by (simp add: generate_body_def f c cong: sum.case_cong)
  then have "generate_text lib g request = generate_text ?lib g request"
    by (simp add: generate_text_def split: option.splits)
  then show ?thesis
    using s v by simp
qed

theorem sampler_uses_temperature_only_witness:
  "validate_generate \<lparr>json_prompt = Some (py ''hi''), json_max_tokens = None,
        json_temperature = None, json_top_p = Some 1, json_min_p = Some 0\<rparr>
     = Some \<lparr>prompt = py ''hi'', max_tokens = 150, temperature = 7 / 10\<rparr>
   \<and> request_sampler \<lparr>prompt = py ''hi'', max_tokens = 150, temperature = 7 / 10\<rparr>
     = \<lparr>temp = 7 / 10, top_p = 8 / 10, min_tokens_to_keep = 1\<rparr>
   \<and> generate_text
       \<lparr>apply_chat_template = (\<lambda>tok messages thinking. Inr (py ''formatted'')),
        generate = (\<lambda>m tok formatted n s l.
           if s = \<lparr>temp = 7 / 10, top_p = 8 / 10, min_tokens_to_keep = 1\<rparr>
           then Inr (py ''fixed sampler'') else Inr (py ''other sampler'')),
        encode = (\<lambda>tok r. Inr [1, 2])\<rparr>
       \<lparr>model = Some (), tokenizer = Some (), current_model_path = Some (py ''m'')\<rparr>
       \<lparr>prompt = py ''hi'', max_tokens = 150, temperature = 7 / 10\<rparr>
     = Inr \<lparr>response = py ''fixed sampler'', tokens_generated = 2\<rparr>"
proof -
  have v: "validate_generate \<lparr>json_prompt = Some (py ''hi''), json_max_tokens = None,
        json_temperature = None, json_top_p = None, json_min_p = None\<rparr>
     = Some \<lparr>prompt = py ''hi'', max_tokens = 150, temperature = 7 / 10\<rparr>"
    by (simp add: validate_generate_def)
  have c: "clean_model_response (py ''fixed sampler'') = Inr (py ''fixed sampler'')"
    by (simp add: clean_eval)
  show ?thesis
    using sampler_uses_temperature_only [OF v, where p = "Some 1" and q = "Some 0"
        and lib = "\<lparr>apply_chat_template = (\<lambda>tok messages thinking. Inr (py ''formatted'')),
        generate = (\<lambda>m tok formatted n s l.
           if s = \<lparr>temp = 7 / 10, top_p = 8 / 10, min_tokens_to_keep = 1\<rparr>
           then Inr (py ''fixed sampler'') else Inr (py ''other sampler'')),
        encode = (\<lambda>tok r. Inr [1, 2])\<rparr>"
        and g = "\<lparr>model = Some (), tokenizer = Some (), current_model_path = Some (py ''m'')\<rparr>"] c
    by (simp add: generate_text_def generate_body_def format_prompt_def count_tokens_def py_def)
qed

text \<open>C7 as stated fails: with a \<open>top_p\<close> of 1 in the body the sampler's \<open>top_p\<close> is
  not 1, and a library that tells the two apart sees the fixed value.\<close>

theorem request_top_p_counterexample:
  "validate_generate \<lparr>json_prompt = Some (py ''hi''), json_max_tokens = None,
        json_temperature = None, json_top_p = Some 1, json_min_p = Some 0\<rparr>
     = Some \<lparr>prompt = py ''hi'', max_tokens = 150, temperature = 7 / 10\<rparr>
   \<and> top_p (request_sampler \<lparr>prompt = py ''hi'', max_tokens = 150, temperature = 7 / 10\<rparr>) \<noteq> 1
   \<and> generate_text
       \<lparr>apply_chat_template = (\<lambda>tok messages thinking. Inr (py ''formatted'')),
        generate = (\<lambda>m tok formatted n s l.
           if top_p s = 1 then Inr (py ''honored'') else Inr (py ''ignored'')),
        encode = (\<lambda>tok r. Inr [1])\<rparr>
       \<lparr>model = Some (), tokenizer = Some (), current_model_path = Some (py ''m'')\<rparr>
       \<lparr>prompt = py ''hi'', max_tokens = 150, temperature = 7 / 10\<rparr>
     = Inr \<lparr>response = py ''ignored'', tokens_generated = 1\<rparr>"
proof -
  have c: "clean_model_response (py ''ignored'') = Inr (py ''ignored'')"
    by (simp add: clean_eval)
  show ?thesis
    using c
    by (simp add: validate_generate_def request_sampler_def generate_text_def generate_body_def
        format_prompt_def count_tokens_def py_def)
qed

end
